theory Spec2Isabelle
  imports Main "HOL-Library.Multiset"
begin

section \<open>Strings and the character database\<close>

text \<open>
  A Python \<^verbatim>\<open>str\<close> is a sequence of Unicode code points: \<^verbatim>\<open>len\<close> counts code points
  and \<^verbatim>\<open>==\<close> compares them one by one.  A code point is a natural number here and a
  string a list of them.
\<close>

type_synonym codepoint = nat
type_synonym str = "codepoint list"

text \<open>A string literal of the source, all of which are ASCII.\<close>

definition lit :: "string \<Rightarrow> str" where
  "lit s = map of_char s"

text \<open>
  \<^verbatim>\<open>clean_text\<close>, \<^verbatim>\<open>split_text\<close> and \<^verbatim>\<open>map_function\<close> classify characters only through
  the interpreter: \<^verbatim>\<open>\s\<close> and \<^verbatim>\<open>str.split()\<close> through \<^verbatim>\<open>Py_UNICODE_ISSPACE\<close>, \<^verbatim>\<open>\d\<close>
  through \<^verbatim>\<open>Py_UNICODE_ISDECIMAL\<close>, \<^verbatim>\<open>\w\<close> through \<^verbatim>\<open>Py_UNICODE_ISALNUM\<close> (or an
  underscore), and \<^verbatim>\<open>str.lower()\<close> through the case mappings, which may lengthen a string
  and look at the neighbours of a character.  These tables belong to the interpreter and
  not to the program, so the program is modelled over an arbitrary table \<open>U\<close>.
\<close>

record ucd =
  isspace :: "codepoint \<Rightarrow> bool"
  isalnum :: "codepoint \<Rightarrow> bool"
  isdecimal :: "codepoint \<Rightarrow> bool"
  lower :: "str \<Rightarrow> str"

text \<open>The rows of the table for the ASCII code points, as CPython has them.\<close>

definition ascii_isspace :: "codepoint \<Rightarrow> bool" where
  "ascii_isspace c \<longleftrightarrow> (9 \<le> c \<and> c \<le> 13) \<or> (28 \<le> c \<and> c \<le> 32)"

definition ascii_isdecimal :: "codepoint \<Rightarrow> bool" where
  "ascii_isdecimal c \<longleftrightarrow> 48 \<le> c \<and> c \<le> 57"

definition ascii_isupper :: "codepoint \<Rightarrow> bool" where
  "ascii_isupper c \<longleftrightarrow> 65 \<le> c \<and> c \<le> 90"

definition ascii_islower :: "codepoint \<Rightarrow> bool" where
  "ascii_islower c \<longleftrightarrow> 97 \<le> c \<and> c \<le> 122"

definition ascii_isalnum :: "codepoint \<Rightarrow> bool" where
  "ascii_isalnum c \<longleftrightarrow> ascii_isdecimal c \<or> ascii_isupper c \<or> ascii_islower c"

definition ascii_lower :: "codepoint \<Rightarrow> codepoint" where
  "ascii_lower c = (if ascii_isupper c then c + 32 else c)"

definition is_ascii :: "str \<Rightarrow> bool" where
  "is_ascii s \<longleftrightarrow> (\<forall>c \<in> set s. c < 128)"

text \<open>A table agrees with CPython on ASCII when it has these rows.\<close>

definition ascii_rows :: "ucd \<Rightarrow> bool" where
  "ascii_rows U \<longleftrightarrow>
     (\<forall>c < 128. isspace U c = ascii_isspace c \<and> isalnum U c = ascii_isalnum c
        \<and> isdecimal U c = ascii_isdecimal c)
     \<and> (\<forall>s. is_ascii s \<longrightarrow> lower U s = map ascii_lower s)"

text \<open>
  A concrete table for running the program: the ASCII rows, and the rows of U+0130
  (LATIN CAPITAL LETTER I WITH DOT ABOVE: a letter, whose lowercase is the two code
  points U+0069 U+0307) and of U+0307 (COMBINING DOT ABOVE: a mark, so neither
  alphanumeric nor whitespace, and unchanged by \<^verbatim>\<open>lower\<close>).  It is exact on these code
  points; every other code point is entered as an unclassified symbol, and no run below
  reads such a row.
\<close>

definition excerpt_lower :: "codepoint \<Rightarrow> str" where
  "excerpt_lower c = (if c = 304 then [105, 775] else [ascii_lower c])"

definition excerpt :: ucd where
  "excerpt = \<lparr> isspace = ascii_isspace,
               isalnum = (\<lambda>c. ascii_isalnum c \<or> c = 304),
               isdecimal = ascii_isdecimal,
               lower = (\<lambda>s. concat (map excerpt_lower s)) \<rparr>"






section \<open>String operations of the interpreter\<close>

text \<open>\<^verbatim>\<open>\w\<close> of \<^verbatim>\<open>re\<close> on a \<^verbatim>\<open>str\<close> pattern: alphanumeric or the underscore.\<close>

definition is_word :: "ucd \<Rightarrow> codepoint \<Rightarrow> bool" where
  "is_word U c \<longleftrightarrow> isalnum U c \<or> c = 95"

text \<open>
  \<^verbatim>\<open>str.split()\<close> without arguments: the maximal runs of characters that are not
  whitespace, in order.  \<open>split_from U cur s\<close> scans \<open>s\<close> with the word read so far in
  \<open>cur\<close>.
\<close>

fun split_from :: "ucd \<Rightarrow> str \<Rightarrow> str \<Rightarrow> str list" where
  "split_from U cur [] = (if cur = [] then [] else [cur])"
| "split_from U cur (c # cs) =
     (if isspace U c
      then (if cur = [] then split_from U [] cs else cur # split_from U [] cs)
      else split_from U (cur @ [c]) cs)"

definition split :: "ucd \<Rightarrow> str \<Rightarrow> str list" where
  "split U s = split_from U [] s"

text \<open>\<^verbatim>\<open>' '.join(ws)\<close>.\<close>

fun join :: "str list \<Rightarrow> str" where
  "join [] = []"
| "join [w] = w"
| "join (w # ws) = w @ 32 # join ws"

text \<open>
  \<^verbatim>\<open>words[start:end]\<close> for a list: a negative index counts from the end, both indices are
  clamped to the list, and the slice is empty when the end is not after the start.
\<close>

definition slice_index :: "int \<Rightarrow> int \<Rightarrow> nat" where
  "slice_index n i = nat (min n (max 0 (if i < 0 then i + n else i)))"

definition slice :: "'a list \<Rightarrow> int \<Rightarrow> int \<Rightarrow> 'a list" where
  "slice xs s e =
     (let n = int (length xs); a = slice_index n s; b = slice_index n e
      in take (b - a) (drop a xs))"

section \<open>The program\<close>

text \<open>
  The exceptions that can leave \<^verbatim>\<open>mapreduce\<close>.  \<open>ZeroDivisionError\<close> is raised by \<^verbatim>\<open>//\<close>
  and \<open>ValueError\<close> by \<^verbatim>\<open>ThreadPoolExecutor\<close> for \<^verbatim>\<open>max_workers <= 0\<close>.
  \<open>ConfigurationError\<close> is the error kind the specification names for an invalid worker
  count; no statement of the source raises it.
\<close>

datatype py_error = ZeroDivisionError | ValueError | ConfigurationError

text \<open>
  A \<^verbatim>\<open>dict\<close> from words to counts, as the list of its items in insertion order; the keys
  are distinct.  Python's \<^verbatim>\<open>==\<close> on two dicts ignores the order: it compares \<open>map_of\<close>.
\<close>

type_synonym dict = "(str \<times> int) list"

subsection \<open>clean_text\<close>

text \<open>\<^verbatim>\<open>re.sub(r'[^\w\s]', ' ', text)\<close>\<close>

definition sub_nonword :: "ucd \<Rightarrow> str \<Rightarrow> str" where
  "sub_nonword U text = map (\<lambda>c. if is_word U c \<or> isspace U c then c else 32) text"

text \<open>\<^verbatim>\<open>re.sub(r'\d+', ' ', text)\<close>: every maximal run of decimal digits becomes one space.\<close>

function sub_digits :: "ucd \<Rightarrow> str \<Rightarrow> str" where
  "sub_digits U [] = []"
| "sub_digits U (c # cs) =
     (if isdecimal U c then 32 # sub_digits U (dropWhile (isdecimal U) cs)
      else c # sub_digits U cs)"
  by pat_completeness auto
termination
  by (relation "measure (\<lambda>(U, s). length s)")
     (auto simp: length_dropWhile_le less_Suc_eq_le)

definition clean_text :: "ucd \<Rightarrow> str \<Rightarrow> str" where
  "clean_text U text =
     (let text = sub_nonword U text;
          text = sub_digits U text;
          text = lower U text;
          text = join (split U text)
      in text)"

subsection \<open>split_text\<close>

text \<open>
  The body of the loop for one \<open>i\<close>: the chunk appended.  The division
  \<^verbatim>\<open>len(words) // num_chunks\<close> raises when \<open>num_chunks\<close> is zero, before the loop; for a
  negative \<open>num_chunks\<close> the range is empty and the result is the empty list.
\<close>

definition chunk_at :: "str list \<Rightarrow> int \<Rightarrow> int \<Rightarrow> int \<Rightarrow> str" where
  "chunk_at words num_chunks chunk_size i =
     (let start_idx = i * chunk_size;
          end_idx = (if i = num_chunks - 1 then int (length words) else (i + 1) * chunk_size)
      in join (slice words start_idx end_idx))"

definition split_text :: "ucd \<Rightarrow> str \<Rightarrow> int \<Rightarrow> py_error + str list" where
  "split_text U text num_chunks =
     (let words = split U text in
      if num_chunks = 0 then Inl ZeroDivisionError
      else
        let chunk_size = int (length words) div num_chunks in
        Inr (map (\<lambda>i. chunk_at words num_chunks chunk_size (int i)) [0 ..< nat num_chunks]))"

subsection \<open>map_function\<close>

definition stop_words :: "str set" where
  "stop_words = set (map lit
   [''the'', ''a'', ''an'', ''and'', ''or'', ''but'', ''in'', ''on'', ''at'', ''to'',
    ''for'', ''of'', ''with'', ''by'', ''from'', ''up'', ''about'', ''into'', ''through'',
    ''during'', ''before'', ''after'', ''above'', ''below'', ''between'', ''among'',
    ''is'', ''are'', ''was'', ''were'', ''be'', ''been'', ''being'', ''have'', ''has'',
    ''had'', ''do'', ''does'', ''did'', ''will'', ''would'', ''should'', ''could'',
    ''can'', ''may'', ''might'', ''must'', ''shall'', ''i'', ''you'', ''he'', ''she'',
    ''it'', ''we'', ''they'', ''them'', ''their'', ''this'', ''that'', ''these'',
    ''those'', ''not'', ''no'', ''yes'', ''all'', ''any'', ''some'', ''each'', ''every'',
    ''most'', ''more'', ''less'', ''much'', ''many'', ''few'', ''little'', ''big'',
    ''small'', ''large'', ''great'', ''good'', ''bad'', ''new'', ''old'', ''first'',
    ''last'', ''next'', ''same'', ''other''])"

definition map_function :: "ucd \<Rightarrow> str \<Rightarrow> (str \<times> int) list" where
  "map_function U text_chunk =
     (let words = split U text_chunk
      in map (\<lambda>word. (word, 1)) (filter (\<lambda>word. length word \<ge> 3 \<and> word \<notin> stop_words) words))"

subsection \<open>reduce_function\<close>

text \<open>
  \<^verbatim>\<open>word_freq[word] += count\<close> on a \<^verbatim>\<open>defaultdict(int)\<close>: a key that is present keeps its
  place and has the count added; a new key starts from \<open>0\<close> and goes last.
\<close>

fun dict_add :: "dict \<Rightarrow> str \<Rightarrow> int \<Rightarrow> dict" where
  "dict_add [] word cnt = [(word, 0 + cnt)]"
| "dict_add ((k, v) # d) word cnt =
     (if k = word then (k, v + cnt) # d else (k, v) # dict_add d word cnt)"

definition reduce_function :: "(str \<times> int) list \<Rightarrow> dict" where
  "reduce_function word_counts = foldl (\<lambda>word_freq (word, cnt). dict_add word_freq word cnt) [] word_counts"

subsection \<open>mapreduce\<close>

text \<open>
  \<^verbatim>\<open>as_completed\<close> yields the futures in the order in which they finish, which the program
  does not control: \<open>order\<close> is that order, as indices into \<^verbatim>\<open>map_futures\<close>.  It is a
  permutation of the indices of the chunks, since every future is yielded exactly once.
  The prints and the clock do not touch the result and are left out.
\<close>

definition completion_order :: "nat list \<Rightarrow> nat \<Rightarrow> bool" where
  "completion_order order n \<longleftrightarrow> mset order = mset [0 ..< n]"

definition mapreduce :: "ucd \<Rightarrow> int \<Rightarrow> nat list \<Rightarrow> str \<Rightarrow> py_error + dict" where
  "mapreduce U num_workers order text =
     (let cleaned_text = clean_text U text in
      case split_text U cleaned_text num_workers of
        Inl e \<Rightarrow> Inl e
      | Inr text_chunks \<Rightarrow>
          if num_workers \<le> 0 then Inl ValueError
          else
            let map_futures = map (map_function U) text_chunks;
                all_word_pairs = concat (map (\<lambda>i. map_futures ! i) order)
            in Inr (reduce_function all_word_pairs))"

section \<open>Auxiliary notions for the proofs\<close>

text \<open>The value a \<^verbatim>\<open>defaultdict(int)\<close> gives for a key: \<open>0\<close> when the key is absent.\<close>

definition lookup0 :: "dict \<Rightarrow> str \<Rightarrow> int" where
  "lookup0 d w = (case map_of d w of None \<Rightarrow> 0 | Some v \<Rightarrow> v)"

text \<open>The sum of the counts that a list of pairs gives to one word.\<close>

definition total_for :: "str \<Rightarrow> (str \<times> int) list \<Rightarrow> int" where
  "total_for w ps = sum_list (map snd (filter (\<lambda>p. fst p = w) ps))"

text \<open>The loop of \<^verbatim>\<open>reduce_function\<close>, started from any dictionary.\<close>

definition reduce_from :: "dict \<Rightarrow> (str \<times> int) list \<Rightarrow> dict" where
  "reduce_from d ps = foldl (\<lambda>word_freq (word, cnt). dict_add word_freq word cnt) d ps"

text \<open>A word as \<^verbatim>\<open>str.split()\<close> returns it: not empty and free of whitespace.\<close>

definition proper :: "ucd \<Rightarrow> str \<Rightarrow> bool" where
  "proper U w \<longleftrightarrow> w \<noteq> [] \<and> (\<forall>c \<in> set w. \<not> isspace U c)"

text \<open>
  The ASCII characters that can stand in normalized ASCII text: a lowercase letter, the
  underscore, or whitespace.
\<close>

definition norm_char :: "codepoint \<Rightarrow> bool" where
  "norm_char c \<longleftrightarrow> ascii_islower c \<or> c = 95 \<or> ascii_isspace c"

text \<open>
  \<^verbatim>\<open>str.lower()\<close> works character by character on the alphabet \<open>A\<close>: on strings over
  \<open>A\<close> it maps each character \<open>c\<close> to the single character \<open>f c\<close>, which is again
  in \<open>A\<close> and is its own lowercase; it turns no word or whitespace character into a
  character that is neither, and no character into a decimal digit that was not one.
  The space is in \<open>A\<close>, is whitespace, is no digit and is its own lowercase.
\<close>

definition charwise_lower :: "ucd \<Rightarrow> codepoint set \<Rightarrow> (codepoint \<Rightarrow> codepoint) \<Rightarrow> bool" where
  "charwise_lower U A f \<longleftrightarrow>
     (\<forall>s. set s \<subseteq> A \<longrightarrow> lower U s = map f s)
     \<and> (\<forall>c \<in> A. f c \<in> A \<and> f (f c) = f c
           \<and> (is_word U c \<or> isspace U c \<longrightarrow> is_word U (f c) \<or> isspace U (f c))
           \<and> (\<not> isdecimal U c \<longrightarrow> \<not> isdecimal U (f c)))
     \<and> 32 \<in> A \<and> f 32 = 32 \<and> isspace U 32 \<and> \<not> isdecimal U 32"


section \<open>The dictionary built by reduce_function\<close>

lemma reduce_from_Nil: "reduce_from d [] = d"
  by (simp add: reduce_from_def)

lemma reduce_from_Cons: "reduce_from d ((w, c) # ps) = reduce_from (dict_add d w c) ps"
  by (simp add: reduce_from_def)

lemma reduce_function_from: "reduce_function ps = reduce_from [] ps"
  by (simp add: reduce_function_def reduce_from_def)

lemma dict_add_sum: "sum_list (map snd (dict_add d w c)) = sum_list (map snd d) + c"
  by (induction d w c rule: dict_add.induct) auto

lemma dict_add_keys: "fst ` set (dict_add d w c) = insert w (fst ` set d)"
  by (induction d w c rule: dict_add.induct) auto

lemma dict_add_distinct:
  "distinct (map fst d) \<Longrightarrow> distinct (map fst (dict_add d w c))"
proof (induction d w c rule: dict_add.induct)
  case (1 word cnt)
  then show ?case by simp
next
  case (2 k v d word cnt)
  have "k \<notin> fst ` set (dict_add d word cnt)" if "k \<noteq> word"
    using that "2.prems" by (simp add: dict_add_keys)
  with 2 show ?case by auto
qed

lemma dict_add_map_of:
  "map_of (dict_add d w c) = (map_of d)(w \<mapsto> lookup0 d w + c)"
  by (induction d w c rule: dict_add.induct) (auto simp: lookup0_def fun_eq_iff)

lemma dict_add_positive:
  "1 \<le> c \<Longrightarrow> \<forall>p \<in> set d. 1 \<le> snd p \<Longrightarrow> \<forall>p \<in> set (dict_add d w c). 1 \<le> snd p"
  by (induction d w c rule: dict_add.induct) auto

lemma reduce_from_sum:
  "sum_list (map snd (reduce_from d ps)) = sum_list (map snd d) + sum_list (map snd ps)"
proof (induction ps arbitrary: d)
  case Nil
  show ?case by (simp add: reduce_from_Nil)
next
  case (Cons p ps)
  obtain w c where p: "p = (w, c)" by (cases p)
  show ?case
    by (simp add: p reduce_from_Cons Cons.IH dict_add_sum)
qed

lemma reduce_from_keys:
  "fst ` set (reduce_from d ps) = fst ` set d \<union> fst ` set ps"
proof (induction ps arbitrary: d)
  case Nil
  show ?case by (simp add: reduce_from_Nil)
next
  case (Cons p ps)
  obtain w c where p: "p = (w, c)" by (cases p)
  show ?case
    by (simp add: p reduce_from_Cons Cons.IH dict_add_keys)
qed

lemma reduce_from_distinct:
  "distinct (map fst d) \<Longrightarrow> distinct (map fst (reduce_from d ps))"
proof (induction ps arbitrary: d)
  case Nil
  then show ?case by (simp add: reduce_from_Nil)
next
  case (Cons p ps)
  obtain w c where p: "p = (w, c)" by (cases p)
  show ?case
    using Cons.prems by (simp add: p reduce_from_Cons Cons.IH dict_add_distinct)
qed

lemma reduce_from_positive:
  "\<forall>p \<in> set ps. 1 \<le> snd p \<Longrightarrow> \<forall>p \<in> set d. 1 \<le> snd p
     \<Longrightarrow> \<forall>p \<in> set (reduce_from d ps). 1 \<le> snd p"
proof (induction ps arbitrary: d)
  case Nil
  then show ?case by (simp add: reduce_from_Nil)
next
  case (Cons p ps)
  obtain w c where p: "p = (w, c)" by (cases p)
  have "\<forall>q \<in> set (dict_add d w c). 1 \<le> snd q"
    using Cons.prems by (intro dict_add_positive) (simp_all add: p)
  moreover have "\<forall>q \<in> set ps. 1 \<le> snd q"
    using Cons.prems by simp
  ultimately show ?case
    unfolding p reduce_from_Cons by (rule Cons.IH[rotated])
qed

lemma lookup0_dict_add:
  "lookup0 (dict_add d k c) w = (if w = k then lookup0 d k + c else lookup0 d w)"
  by (simp add: lookup0_def dict_add_map_of)

lemma total_for_Cons:
  "total_for w ((k, c) # ps) = (if k = w then c + total_for w ps else total_for w ps)"
  by (simp add: total_for_def)

lemma reduce_from_lookup:
  "lookup0 (reduce_from d ps) w = lookup0 d w + total_for w ps"
proof (induction ps arbitrary: d)
  case Nil
  show ?case by (simp add: reduce_from_Nil total_for_def)
next
  case (Cons p ps)
  obtain k c where p: "p = (k, c)" by (cases p)
  show ?case
    by (simp add: p reduce_from_Cons Cons.IH lookup0_dict_add total_for_Cons)
qed

lemma map_of_lookup0:
  "map_of d w = (if w \<in> fst ` set d then Some (lookup0 d w) else None)"
  by (auto simp: lookup0_def map_of_eq_None_iff split: option.splits)

lemma reduce_function_map_of:
  "map_of (reduce_function ps) w =
     (if w \<in> fst ` set ps then Some (total_for w ps) else None)"
proof -
  have k: "fst ` set (reduce_function ps) = fst ` set ps"
    by (simp add: reduce_function_from reduce_from_keys)
  have "lookup0 [] w = 0"
    by (simp add: lookup0_def)
  then have l: "lookup0 (reduce_function ps) w = total_for w ps"
    by (simp add: reduce_function_from reduce_from_lookup)
  show ?thesis
    by (simp only: map_of_lookup0 [of "reduce_function ps" w] k l)
qed

lemma total_for_mset:
  "total_for w ps = sum_mset (image_mset snd (filter_mset (\<lambda>p. fst p = w) (mset ps)))"
  unfolding total_for_def
  by (metis mset_filter mset_map sum_mset_sum_list)

lemma reduce_function_mset:
  assumes "mset ps = mset qs"
  shows "map_of (reduce_function ps) = map_of (reduce_function qs)"
proof
  fix w
  have "set ps = set qs" using assms by (rule mset_eq_setD)
  moreover have "total_for w ps = total_for w qs"
    by (simp only: total_for_mset assms)
  ultimately show "map_of (reduce_function ps) w = map_of (reduce_function qs) w"
    by (simp only: reduce_function_map_of)
qed

section \<open>split and join\<close>

lemma split_from_proper:
  "\<forall>c \<in> set cur. \<not> isspace U c \<Longrightarrow> \<forall>w \<in> set (split_from U cur s). proper U w"
proof (induction s arbitrary: cur)
  case Nil
  then show ?case by (simp add: proper_def)
next
  case (Cons c s)
  have a: "\<forall>w \<in> set (split_from U [] s). proper U w"
    by (rule Cons.IH) simp
  have b: "\<forall>w \<in> set (split_from U (cur @ [c]) s). proper U w" if "\<not> isspace U c"
    by (rule Cons.IH) (use that Cons.prems in auto)
  show ?case
    using a b Cons.prems by (auto simp: proper_def)
qed

lemma split_proper: "\<forall>w \<in> set (split U s). proper U w"
  unfolding split_def by (rule split_from_proper) simp

lemma split_from_word:
  "\<forall>c \<in> set w. \<not> isspace U c \<Longrightarrow> split_from U cur (w @ s) = split_from U (cur @ w) s"
  by (induction w arbitrary: cur) simp_all

lemma split_word: "proper U w \<Longrightarrow> split U w = [w]"
  using split_from_word [of w U "[]" "[]"] by (simp add: split_def proper_def)

lemma split_from_sep:
  "isspace U 32 \<Longrightarrow> split_from U cur (s @ 32 # r) = split_from U cur s @ split U r"
  by (induction s arbitrary: cur) (simp_all add: split_def)

lemma split_join_concat:
  "isspace U 32 \<Longrightarrow> split U (join ss) = concat (map (split U) ss)"
proof (induction ss rule: join.induct)
  case 1
  show ?case by (simp add: split_def)
next
  case (2 w)
  show ?case by simp
next
  case (3 w v ws)
  have "split U (join (w # v # ws)) = split_from U [] (w @ 32 # join (v # ws))"
    by (simp add: split_def)
  also have "\<dots> = split U w @ split U (join (v # ws))"
    using "3.prems" by (simp add: split_from_sep split_def)
  finally show ?case
    using 3 by simp
qed

lemma concat_singletons: "\<forall>w \<in> set ws. f w = [w] \<Longrightarrow> concat (map f ws) = ws"
  by (induction ws) simp_all

lemma split_join:
  assumes "isspace U 32" and "\<forall>w \<in> set ws. proper U w"
  shows "split U (join ws) = ws"
proof -
  have "concat (map (split U) ws) = ws"
    using assms(2) by (intro concat_singletons) (simp add: split_word)
  then show ?thesis
    by (simp only: split_join_concat [OF assms(1)])
qed

section \<open>The chunks of split_text\<close>

lemma slice_int:
  "a \<le> b \<Longrightarrow> b \<le> length xs \<Longrightarrow> slice xs (int a) (int b) = take (b - a) (drop a xs)"
  by (simp add: slice_def slice_index_def Let_def min_def max_def)

lemma concat_takes:
  "concat (map (\<lambda>i. take c (drop (i * c) xs)) [0 ..< k]) = take (k * c) xs"
proof (induction k)
  case 0
  show ?case by simp
next
  case (Suc k)
  have "take (k * c) xs @ take c (drop (k * c) xs) = take (k * c + c) xs"
    by (simp add: take_add)
  with Suc show ?case by (simp add: add.commute)
qed

lemma split_text_slices:
  assumes "1 \<le> n"
  shows "\<exists>wss. split_text U text n = Inr (map join wss) \<and> length wss = nat n
           \<and> concat wss = split U text \<and> (\<forall>ws \<in> set wss. set ws \<subseteq> set (split U text))"
proof -
  define xs where "xs = split U text"
  obtain j where n: "n = int (Suc j)"
    using assms by (metis Suc_pred' nat_0_le nat_int of_nat_0_less_iff zero_less_one_class.zero_less_one order_less_le_trans zero_le_one order_trans)
  define c where "c = length xs div Suc j"
  define f where "f i = (if i = j then drop (i * c) xs else take c (drop (i * c) xs))" for i
  define wss where "wss = map f [0 ..< Suc j]"
  have cs: "int (length xs) div n = int c"
    by (simp add: n c_def zdiv_int)
  have bound: "Suc j * c \<le> length xs"
    using div_times_less_eq_dividend [of "length xs" "Suc j"]
    by (simp only: c_def mult.commute)
  have chunk: "chunk_at xs n (int c) (int i) = join (f i)" if "i < Suc j" for i
  proof (cases "i = j")
    case True
    have "j * c \<le> length xs"
      using bound by simp
    then have "slice xs (int (j * c)) (int (length xs)) =
        take (length xs - j * c) (drop (j * c) xs)"
      by (intro slice_int) simp_all
    then have "slice xs (int (j * c)) (int (length xs)) = drop (j * c) xs"
      by simp
    then show ?thesis
      by (simp add: chunk_at_def Let_def n True f_def)
  next
    case False
    with that have "Suc i \<le> j" by simp
    then have "Suc i * c \<le> j * c" by (rule mult_le_mono1)
    also have "\<dots> \<le> length xs" using bound by simp
    finally have "slice xs (int (i * c)) (int (Suc i * c)) =
        take (Suc i * c - i * c) (drop (i * c) xs)"
      by (intro slice_int) simp_all
    then have "slice xs (int (i * c)) (int (Suc i * c)) = take c (drop (i * c) xs)"
      by simp
    moreover have "int (Suc i * c) = (int i + 1) * int c" "int (i * c) = int i * int c"
      by (simp_all add: algebra_simps)
    ultimately have s: "slice xs (int i * int c) ((int i + 1) * int c) = take c (drop (i * c) xs)"
      by (simp only:)
    have ne: "int i \<noteq> n - 1"
      using False by (simp add: n)
    show ?thesis
      by (simp only: chunk_at_def Let_def f_def False ne if_False s)
  qed
  have nz: "n \<noteq> 0" and k: "nat n = Suc j"
    by (simp_all add: n)
  have "map (\<lambda>i. chunk_at xs n (int c) (int i)) [0 ..< Suc j] =
      map (\<lambda>i. join (f i)) [0 ..< Suc j]"
    by (rule map_cong [OF refl]) (simp add: chunk del: upt_Suc)
  also have "\<dots> = map join wss"
    by (simp add: wss_def o_def del: upt_Suc)
  finally have "split_text U text n = Inr (map join wss)"
    by (simp only: split_text_def Let_def xs_def [symmetric] nz if_False cs k)
  moreover have "length wss = nat n"
    by (simp add: wss_def n)
  moreover have "concat wss = xs"
  proof -
    have m: "map f [0 ..< j] = map (\<lambda>i. take c (drop (i * c) xs)) [0 ..< j]"
      by (rule map_cong [OF refl]) (simp add: f_def)
    have "concat wss = concat (map f [0 ..< j]) @ f j"
      by (simp add: wss_def)
    also have "\<dots> = take (j * c) xs @ drop (j * c) xs"
      by (simp only: m concat_takes) (simp add: f_def)
    finally show ?thesis by simp
  qed
  moreover have "\<forall>ws \<in> set wss. set ws \<subseteq> set xs"
    by (auto simp: wss_def f_def simp del: upt_Suc dest: in_set_takeD in_set_dropD)
  ultimately show ?thesis
    unfolding xs_def by blast
qed

lemma split_text_cover:
  assumes "1 \<le> n" and "isspace U 32"
  shows "\<exists>chunks. split_text U text n = Inr chunks \<and> length chunks = nat n
           \<and> concat (map (split U) chunks) = split U text
           \<and> split U (join chunks) = split U text"
proof -
  obtain wss where wss: "split_text U text n = Inr (map join wss)" "length wss = nat n"
      "concat wss = split U text" "\<forall>ws \<in> set wss. set ws \<subseteq> set (split U text)"
    using split_text_slices [OF assms(1)] by blast
  have "split U (join ws) = ws" if "ws \<in> set wss" for ws
    using that wss(4) split_proper [of U "text"] by (intro split_join assms(2)) blast
  then have "map (split U) (map join wss) = wss"
    by (simp add: map_idI)
  then have "concat (map (split U) (map join wss)) = split U text"
    using wss(3) by simp
  moreover from this have "split U (join (map join wss)) = split U text"
    using assms(2) by (simp only: split_join_concat)
  ultimately show ?thesis
    using wss(1,2) by simp
qed

section \<open>The pairs that reach reduce_function\<close>

lemma completed_mset:
  assumes "completion_order order (length xs)"
  shows "mset (map (\<lambda>i. xs ! i) order) = mset xs"
proof -
  have "mset (map (\<lambda>i. xs ! i) order) = image_mset (\<lambda>i. xs ! i) (mset order)"
    by (rule mset_map)
  also have "\<dots> = image_mset (\<lambda>i. xs ! i) (mset [0 ..< length xs])"
    using assms by (simp only: completion_order_def)
  also have "\<dots> = mset (map (\<lambda>i. xs ! i) [0 ..< length xs])"
    by (rule mset_map [symmetric])
  also have "\<dots> = mset xs"
    by (simp only: map_nth)
  finally show ?thesis .
qed

lemma mset_concat_cong: "mset xss = mset yss \<Longrightarrow> mset (concat xss) = mset (concat yss)"
  by (metis mset_concat sum_mset_sum_list mset_map)

lemma mapreduce_pairs:
  assumes "1 \<le> n" and "completion_order order (nat n)"
  shows "\<exists>chunks ps. split_text U (clean_text U text) n = Inr chunks \<and> length chunks = nat n
           \<and> mapreduce U n order text = Inr (reduce_function ps)
           \<and> mset ps = mset (concat (map (map_function U) chunks))"
proof -
  obtain wss where wss: "split_text U (clean_text U text) n = Inr (map join wss)"
      "length wss = nat n"
    using split_text_slices [OF assms(1)] by blast
  define chunks where "chunks = map join wss"
  define futures where "futures = map (map_function U) chunks"
  define ps where "ps = concat (map (\<lambda>i. futures ! i) order)"
  have len: "length futures = nat n"
    by (simp add: futures_def chunks_def wss(2))
  have "mapreduce U n order text = Inr (reduce_function ps)"
    using assms(1) wss(1)
    by (simp add: mapreduce_def Let_def ps_def futures_def chunks_def)
  moreover have "mset ps = mset (concat futures)"
    unfolding ps_def using assms(2) len
    by (intro mset_concat_cong completed_mset) simp
  ultimately show ?thesis
    using wss by (auto simp: chunks_def futures_def)
qed

lemma map_function_concat:
  "concat (map (map_function U) chunks) =
     map (\<lambda>word. (word, 1)) (filter (\<lambda>word. length word \<ge> 3 \<and> word \<notin> stop_words)
       (concat (map (split U) chunks)))"
  by (induction chunks) (simp_all add: map_function_def)

lemma map_function_pair:
  "p \<in> set (map_function U chunk) \<Longrightarrow> snd p = 1 \<and> 3 \<le> length (fst p) \<and> fst p \<notin> stop_words"
  by (auto simp: map_function_def)

lemma sum_list_ones:
  "\<forall>p \<in> set ps. snd p = (1::int) \<Longrightarrow> sum_list (map snd ps) = int (length ps)"
  by (induction ps) simp_all

section \<open>Tables with the ASCII rows\<close>

lemma ascii_rows_class:
  assumes "ascii_rows U" and "c < 128"
  shows "isspace U c = ascii_isspace c" and "isalnum U c = ascii_isalnum c"
    and "isdecimal U c = ascii_isdecimal c"
  using assms by (simp_all add: ascii_rows_def)

lemma ascii_rows_lower: "ascii_rows U \<Longrightarrow> is_ascii s \<Longrightarrow> lower U s = map ascii_lower s"
  by (simp add: ascii_rows_def)

lemma ascii_rows_space: "ascii_rows U \<Longrightarrow> isspace U 32"
  by (simp add: ascii_rows_class ascii_isspace_def)

lemma excerpt_lower_ascii: "is_ascii s \<Longrightarrow> concat (map excerpt_lower s) = map ascii_lower s"
  by (induction s) (auto simp: is_ascii_def excerpt_lower_def)

lemma ascii_rows_excerpt: "ascii_rows excerpt"
  by (auto simp: ascii_rows_def excerpt_def excerpt_lower_ascii)

lemma is_ascii_Cons: "is_ascii (c # s) \<longleftrightarrow> c < 128 \<and> is_ascii s"
  by (simp add: is_ascii_def)

lemma is_ascii_Nil: "is_ascii []"
  by (simp add: is_ascii_def)

lemma is_ascii_append: "is_ascii (s @ t) \<longleftrightarrow> is_ascii s \<and> is_ascii t"
  by (auto simp: is_ascii_def)

section \<open>The characters that each stage of clean_text lets through\<close>

lemma sub_digits_set: "set (sub_digits U s) \<subseteq> {c \<in> set s. \<not> isdecimal U c} \<union> {32}"
proof (induction U s rule: sub_digits.induct)
  case (1 U)
  show ?case by simp
next
  case (2 U c cs)
  show ?case
  proof (cases "isdecimal U c")
    case True
    have "set (dropWhile (isdecimal U) cs) \<subseteq> set cs"
      by (auto dest: set_dropWhileD)
    with 2(1) [OF True] True show ?thesis by auto
  next
    case False
    with 2(2) [OF False] show ?thesis by auto
  qed
qed


lemma split_from_set:
  "w \<in> set (split_from U cur s) \<Longrightarrow> set w \<subseteq> set cur \<union> set s"
proof (induction s arbitrary: cur)
  case Nil
  then show ?case by (simp split: if_splits)
next
  case (Cons c s)
  show ?case
  proof (cases "isspace U c")
    case True
    with Cons.prems have "w = cur \<or> w \<in> set (split_from U [] s)"
      by (simp split: if_splits)
    with Cons.IH [of "[]"] show ?thesis by auto
  next
    case False
    with Cons.prems have "w \<in> set (split_from U (cur @ [c]) s)"
      by simp
    with Cons.IH [of "cur @ [c]"] show ?thesis by auto
  qed
qed

lemma split_set: "w \<in> set (split U s) \<Longrightarrow> set w \<subseteq> set s"
  using split_from_set [of w U "[]" s] by (simp add: split_def)

lemma join_set: "set (join ws) \<subseteq> \<Union> (set ` set ws) \<union> {32}"
  by (induction ws rule: join.induct) auto

lemma join_split_set: "set (join (split U s)) \<subseteq> set s \<union> {32}"
  using join_set [of "split U s"] split_set [of _ U s] by blast

lemma slice_set: "set (slice xs a b) \<subseteq> set xs"
  by (auto simp: slice_def Let_def dest: in_set_takeD in_set_dropD)

lemma ascii_lower_norm:
  "c < 128 \<Longrightarrow> ascii_isalnum c \<or> c = 95 \<or> ascii_isspace c \<Longrightarrow> \<not> ascii_isdecimal c
     \<Longrightarrow> norm_char (ascii_lower c)"
  by (auto simp: norm_char_def ascii_lower_def ascii_isalnum_def ascii_islower_def
      ascii_isupper_def ascii_isspace_def ascii_isdecimal_def)

lemma norm_char_facts:
  assumes "norm_char c"
  shows "c < 128" and "ascii_isalnum c \<or> c = 95 \<or> ascii_isspace c"
    and "\<not> ascii_isdecimal c" and "ascii_lower c = c"
  using assms
  by (auto simp: norm_char_def ascii_lower_def ascii_isalnum_def ascii_islower_def
      ascii_isupper_def ascii_isspace_def ascii_isdecimal_def)

lemma clean_text_norm:
  assumes U: "ascii_rows U" and t: "is_ascii text"
  shows "\<forall>c \<in> set (clean_text U text). norm_char c"
proof -
  define t1 where "t1 = sub_nonword U text"
  define t2 where "t2 = sub_digits U t1"
  have sp: "norm_char 32"
    by (simp add: norm_char_def ascii_isspace_def)
  have 1: "c < 128 \<and> (ascii_isalnum c \<or> c = 95 \<or> ascii_isspace c)" if "c \<in> set t1" for c
  proof -
    from that obtain b where b: "b \<in> set text"
        "c = (if is_word U b \<or> isspace U b then b else 32)"
      by (auto simp: t1_def sub_nonword_def)
    have "b < 128"
      using b(1) t by (simp add: is_ascii_def)
    then show ?thesis
      using b(2) ascii_rows_class [OF U, of b]
      by (auto simp: is_word_def ascii_isspace_def split: if_splits)
  qed
  have 2: "c < 128 \<and> (ascii_isalnum c \<or> c = 95 \<or> ascii_isspace c) \<and> \<not> ascii_isdecimal c"
    if "c \<in> set t2" for c
  proof (cases "c = 32")
    case True
    then show ?thesis by (simp add: ascii_isspace_def ascii_isdecimal_def)
  next
    case False
    with that sub_digits_set [of U t1] have "c \<in> set t1" "\<not> isdecimal U c"
      by (auto simp: t2_def)
    with 1 [of c] ascii_rows_class(3) [OF U, of c] show ?thesis by simp
  qed
  have "is_ascii t2"
    using 2 by (simp add: is_ascii_def)
  then have low: "lower U t2 = map ascii_lower t2"
    using U by (simp add: ascii_rows_lower)
  have 3: "norm_char c" if "c \<in> set (lower U t2)" for c
    using that 2 by (auto simp: low intro: ascii_lower_norm)
  have "clean_text U text = join (split U (lower U t2))"
    by (simp add: clean_text_def t1_def t2_def)
  with join_split_set [of U "lower U t2"] 3 sp show ?thesis
    by auto
qed

section \<open>Two tables with the ASCII rows run the program alike on ASCII text\<close>

lemma sub_nonword_ascii: "is_ascii s \<Longrightarrow> is_ascii (sub_nonword U s)"
  by (auto simp: is_ascii_def sub_nonword_def)

lemma sub_digits_ascii: "is_ascii s \<Longrightarrow> is_ascii (sub_digits U s)"
  using sub_digits_set [of U s] by (auto simp: is_ascii_def)

lemma ascii_lower_ascii: "is_ascii s \<Longrightarrow> is_ascii (map ascii_lower s)"
  by (auto simp: is_ascii_def ascii_lower_def ascii_isupper_def)

lemma sub_nonword_agree:
  assumes "ascii_rows U" and "ascii_rows V" and "is_ascii s"
  shows "sub_nonword U s = sub_nonword V s"
  unfolding sub_nonword_def
proof (rule map_cong [OF refl])
  fix c assume "c \<in> set s"
  then have "c < 128"
    using assms(3) by (simp add: is_ascii_def)
  then show "(if is_word U c \<or> isspace U c then c else 32) =
      (if is_word V c \<or> isspace V c then c else 32)"
    by (simp add: is_word_def ascii_rows_class [OF assms(1)] ascii_rows_class [OF assms(2)])
qed

lemma sub_digits_agree:
  assumes V: "ascii_rows V"
  shows "ascii_rows U \<Longrightarrow> is_ascii s \<Longrightarrow> sub_digits U s = sub_digits V s"
proof (induction U s rule: sub_digits.induct)
  case (1 U)
  show ?case by simp
next
  case (2 U c cs)
  from "2.prems"(2) have c: "c < 128" and cs: "is_ascii cs"
    by (simp_all add: is_ascii_Cons)
  have d: "isdecimal U c = isdecimal V c"
    using c by (simp add: ascii_rows_class [OF "2.prems"(1)] ascii_rows_class [OF V])
  show ?case
  proof (cases "isdecimal U c")
    case True
    have "dropWhile (isdecimal U) cs = dropWhile (isdecimal V) cs"
    proof (rule dropWhile_cong [OF refl])
      fix b assume "b \<in> set cs"
      then have "b < 128" using cs by (simp add: is_ascii_def)
      then show "isdecimal U b = isdecimal V b"
        by (simp add: ascii_rows_class [OF "2.prems"(1)] ascii_rows_class [OF V])
    qed
    moreover have "is_ascii (dropWhile (isdecimal U) cs)"
      using cs by (auto simp: is_ascii_def dest: set_dropWhileD)
    ultimately show ?thesis
      using True d "2.IH"(1) [OF True "2.prems"(1)] by simp
  next
    case False
    then show ?thesis
      using d "2.IH"(2) [OF False "2.prems"(1) cs] by simp
  qed
qed

lemma split_from_agree:
  assumes "ascii_rows U" and "ascii_rows V"
  shows "is_ascii s \<Longrightarrow> split_from U cur s = split_from V cur s"
proof (induction s arbitrary: cur)
  case Nil
  show ?case by simp
next
  case (Cons c s)
  then have "c < 128" and "is_ascii s"
    by (simp_all add: is_ascii_Cons)
  then show ?case
    by (simp add: Cons.IH ascii_rows_class [OF assms(1)] ascii_rows_class [OF assms(2)])
qed

lemma split_agree:
  "ascii_rows U \<Longrightarrow> ascii_rows V \<Longrightarrow> is_ascii s \<Longrightarrow> split U s = split V s"
  unfolding split_def by (rule split_from_agree)

lemma clean_text_agree:
  assumes U: "ascii_rows U" and V: "ascii_rows V" and t: "is_ascii text"
  shows "clean_text U text = clean_text V text"
proof -
  have 1: "sub_nonword U text = sub_nonword V text"
    using assms by (rule sub_nonword_agree)
  have a1: "is_ascii (sub_nonword V text)"
    using t by (rule sub_nonword_ascii)
  have 2: "sub_digits U (sub_nonword V text) = sub_digits V (sub_nonword V text)"
    using V U a1 by (rule sub_digits_agree)
  have a2: "is_ascii (sub_digits V (sub_nonword V text))"
    using a1 by (rule sub_digits_ascii)
  have 3: "lower U (sub_digits V (sub_nonword V text)) =
      lower V (sub_digits V (sub_nonword V text))"
    using a2 by (simp add: ascii_rows_lower [OF U] ascii_rows_lower [OF V])
  have a3: "is_ascii (lower V (sub_digits V (sub_nonword V text)))"
    using a2 by (simp add: ascii_rows_lower [OF V] ascii_lower_ascii)
  show ?thesis
    by (simp add: clean_text_def 1 2 3 split_agree [OF U V a3])
qed

lemma clean_text_ascii: "ascii_rows U \<Longrightarrow> is_ascii text \<Longrightarrow> is_ascii (clean_text U text)"
  using clean_text_norm [of U "text"] norm_char_facts(1) by (auto simp: is_ascii_def)

lemma split_text_agree:
  "ascii_rows U \<Longrightarrow> ascii_rows V \<Longrightarrow> is_ascii s \<Longrightarrow> split_text U s n = split_text V s n"
  by (simp add: split_text_def split_agree [of U V])

lemma split_text_ascii:
  assumes "split_text U s n = Inr chunks" and "is_ascii s"
  shows "\<forall>chunk \<in> set chunks. is_ascii chunk"
proof
  fix chunk assume "chunk \<in> set chunks"
  with assms(1) obtain a b where "chunk = join (slice (split U s) a b)"
    by (auto simp: split_text_def chunk_at_def Let_def split: if_splits)
  moreover have "set (join (slice (split U s) a b)) \<subseteq> set s \<union> {32}"
    using join_set [of "slice (split U s) a b"] slice_set [of "split U s" a b] split_set [of _ U s]
    by blast
  ultimately show "is_ascii chunk"
    using assms(2) by (auto simp: is_ascii_def)
qed

lemma map_function_agree:
  "ascii_rows U \<Longrightarrow> ascii_rows V \<Longrightarrow> is_ascii chunk \<Longrightarrow> map_function U chunk = map_function V chunk"
  by (simp add: map_function_def split_agree [of U V])

lemma mapreduce_agree:
  assumes U: "ascii_rows U" and V: "ascii_rows V" and t: "is_ascii text"
  shows "mapreduce U n order text = mapreduce V n order text"
proof -
  have c: "clean_text U text = clean_text V text"
    using assms by (rule clean_text_agree)
  have a: "is_ascii (clean_text V text)"
    using V t by (rule clean_text_ascii)
  have s: "split_text U (clean_text V text) n = split_text V (clean_text V text) n"
    using U V a by (rule split_text_agree)
  show ?thesis
  proof (cases "split_text V (clean_text V text) n")
    case (Inl e)
    then show ?thesis
      by (simp add: mapreduce_def c s)
  next
    case (Inr chunks)
    have m: "map (map_function U) chunks = map (map_function V) chunks"
      using split_text_ascii [OF Inr a] by (intro map_cong refl map_function_agree [OF U V]) simp
    show ?thesis
      by (simp add: mapreduce_def c s Inr m)
  qed
qed

section \<open>Runs on the excerpt\<close>

lemma scenario_text_ascii: "is_ascii (lit ''The cat sat on the mat. The cat ran.'')"
  by (simp add: is_ascii_def lit_def)

lemma scenario_clean:
  "clean_text excerpt (lit ''The cat sat on the mat. The cat ran.'')
     = lit ''the cat sat on the mat the cat ran''"
  by code_simp

lemma scenario_words:
  "split excerpt (lit ''the cat sat on the mat the cat ran'')
     = map lit [''the'', ''cat'', ''sat'', ''on'', ''the'', ''mat'', ''the'', ''cat'', ''ran'']"
  by code_simp

lemma scenario_pairs:
  "map fst (map_function excerpt (lit ''the cat sat on the mat the cat ran''))
     = map lit [''cat'', ''sat'', ''mat'', ''cat'', ''ran'']"
  by code_simp

lemma scenario_run:
  "mapreduce excerpt 1 [0] (lit ''The cat sat on the mat. The cat ran.'')
     = Inr [(lit ''cat'', 2), (lit ''sat'', 1), (lit ''mat'', 1), (lit ''ran'', 1)]"
  by code_simp

lemma underscore_text_ascii: "is_ascii (lit ''snake_case'')"
  by (simp add: is_ascii_def lit_def)

lemma underscore_clean: "clean_text excerpt (lit ''snake_case'') = lit ''snake_case''"
  by code_simp

section \<open>Alphabets on which lower works character by character\<close>


lemma charwise_lowerI:
  assumes "\<And>s. set s \<subseteq> A \<Longrightarrow> lower U s = map f s"
    and "\<And>c. c \<in> A \<Longrightarrow> f c \<in> A"
    and "\<And>c. c \<in> A \<Longrightarrow> f (f c) = f c"
    and "\<And>c. c \<in> A \<Longrightarrow> is_word U c \<or> isspace U c \<Longrightarrow> is_word U (f c) \<or> isspace U (f c)"
    and "\<And>c. c \<in> A \<Longrightarrow> \<not> isdecimal U c \<Longrightarrow> \<not> isdecimal U (f c)"
    and "32 \<in> A" and "f 32 = 32" and "isspace U 32" and "\<not> isdecimal U 32"
  shows "charwise_lower U A f"
proof -
  have "\<forall>s. set s \<subseteq> A \<longrightarrow> lower U s = map f s"
    using assms(1) by blast
  moreover have "\<forall>c \<in> A. f c \<in> A \<and> f (f c) = f c
           \<and> (is_word U c \<or> isspace U c \<longrightarrow> is_word U (f c) \<or> isspace U (f c))
           \<and> (\<not> isdecimal U c \<longrightarrow> \<not> isdecimal U (f c))"
    using assms(2-5) by blast
  ultimately show ?thesis
    unfolding charwise_lower_def using assms(6-9) by blast
qed





lemma ascii_lower_range: "c < 128 \<Longrightarrow> ascii_lower c < 128"
  by (simp add: ascii_lower_def ascii_isupper_def)

lemma ascii_lower_idem: "ascii_lower (ascii_lower c) = ascii_lower c"
  by (simp add: ascii_lower_def ascii_isupper_def)

lemma ascii_lower_class:
  "ascii_isalnum c \<or> c = 95 \<or> ascii_isspace c
     \<Longrightarrow> ascii_isalnum (ascii_lower c) \<or> ascii_lower c = 95 \<or> ascii_isspace (ascii_lower c)"
  by (auto simp: ascii_lower_def ascii_isalnum_def ascii_islower_def
      ascii_isupper_def ascii_isspace_def ascii_isdecimal_def)

lemma ascii_lower_decimal: "\<not> ascii_isdecimal c \<Longrightarrow> \<not> ascii_isdecimal (ascii_lower c)"
  by (auto simp: ascii_lower_def ascii_isupper_def ascii_isdecimal_def)

lemma ascii_rows_charwise:
  assumes "ascii_rows U"
  shows "charwise_lower U {c. c < 128} ascii_lower"
proof (rule charwise_lowerI)
  show "lower U s = map ascii_lower s" if "set s \<subseteq> {c. c < 128}" for s
  proof -
    from that have "is_ascii s"
      by (auto simp: is_ascii_def)
    with assms show ?thesis
      by (rule ascii_rows_lower)
  qed
  show "ascii_lower c \<in> {c. c < 128}" if "c \<in> {c. c < 128}" for c
    using that by (simp add: ascii_lower_range)
  show "ascii_lower (ascii_lower c) = ascii_lower c" for c
    by (rule ascii_lower_idem)
  show "is_word U (ascii_lower c) \<or> isspace U (ascii_lower c)"
    if "c \<in> {c. c < 128}" and w: "is_word U c \<or> isspace U c" for c
  proof -
    have c: "c < 128" and l: "ascii_lower c < 128"
      using that(1) by (simp_all add: ascii_lower_range)
    have "ascii_isalnum c \<or> c = 95 \<or> ascii_isspace c"
      using w by (simp add: is_word_def ascii_rows_class [OF assms c])
    then have "ascii_isalnum (ascii_lower c) \<or> ascii_lower c = 95 \<or> ascii_isspace (ascii_lower c)"
      by (rule ascii_lower_class)
    then show ?thesis
      by (simp add: is_word_def ascii_rows_class [OF assms l])
  qed
  show "\<not> isdecimal U (ascii_lower c)" if "c \<in> {c. c < 128}" and d: "\<not> isdecimal U c" for c
  proof -
    have c: "c < 128" and l: "ascii_lower c < 128"
      using that(1) by (simp_all add: ascii_lower_range)
    have "\<not> ascii_isdecimal c"
      using d by (simp add: ascii_rows_class(3) [OF assms c])
    then have "\<not> ascii_isdecimal (ascii_lower c)"
      by (rule ascii_lower_decimal)
    then show ?thesis
      by (simp add: ascii_rows_class(3) [OF assms l])
  qed
  show "32 \<in> {c. c < (128::nat)}"
    by simp
  show "ascii_lower 32 = 32"
    by (simp add: ascii_lower_def ascii_isupper_def)
  show "isspace U 32"
    using assms by (rule ascii_rows_space)
  show "\<not> isdecimal U 32"
    by (simp add: ascii_rows_class(3) [OF assms] ascii_isdecimal_def)
qed














section \<open>The claims on partitioning, counting and merging\<close>

text \<open>
  C1 (partition coverage).  For every input text and every \<open>n \<ge> 1\<close>, \<^verbatim>\<open>split_text\<close> on the
  normalized text returns exactly \<open>n\<close> chunks, and the words of the chunks, taken chunk
  by chunk in list order, are the words of the normalized text, none lost and none
  repeated; so are the words of the chunks joined by spaces.  The space is whitespace in
  the interpreter's table.
\<close>

theorem partition_coverage:
  assumes "1 \<le> n" and "isspace U 32"
  shows "\<exists>chunks. split_text U (clean_text U text) n = Inr chunks \<and> length chunks = nat n
           \<and> concat (map (split U) chunks) = split U (clean_text U text)
           \<and> split U (join chunks) = split U (clean_text U text)"
  using assms by (rule split_text_cover)

theorem partition_coverage_witness:
  "(1::int) \<le> 3 \<and> isspace excerpt 32
   \<and> (\<exists>chunks. split_text excerpt (clean_text excerpt (lit ''One, two; three 4 FIVE!'')) 3
         = Inr chunks \<and> length chunks = nat 3
       \<and> concat (map (split excerpt) chunks)
         = split excerpt (clean_text excerpt (lit ''One, two; three 4 FIVE!''))
       \<and> split excerpt (join chunks)
         = split excerpt (clean_text excerpt (lit ''One, two; three 4 FIVE!'')))"
proof -
  have h1: "(1::int) \<le> 3"
    by simp
  have h2: "isspace excerpt 32"
    by (simp add: excerpt_def ascii_isspace_def)
  show ?thesis
    using h1 h2 partition_coverage [OF h1 h2, of "lit ''One, two; three 4 FIVE!''"]
    by blast
qed

text \<open>
  C2, as the code has it.  With \<open>num_workers = 0\<close> the run fails for every input text and
  returns no table; the exception is the \<open>ZeroDivisionError\<close> of the division
  \<^verbatim>\<open>len(words) // num_chunks\<close> in \<^verbatim>\<open>split_text\<close>, which \<^verbatim>\<open>mapreduce\<close> lets through.
\<close>

theorem zero_workers_fail:
  "split_text U (clean_text U text) 0 = Inl ZeroDivisionError
   \<and> mapreduce U 0 order text = Inl ZeroDivisionError"
  by (simp add: mapreduce_def split_text_def)

text \<open>C2 as stated fails: the error of the run is not a \<open>ConfigurationError\<close>.\<close>

theorem zero_workers_counterexample:
  "mapreduce excerpt 0 [] (lit ''The cat sat on the mat.'') \<noteq> Inl ConfigurationError"
  by (simp add: mapreduce_def split_text_def)

text \<open>
  C3 (filter correctness).  For every input text and every \<open>num_workers \<ge> 1\<close>, whatever
  the order in which the map tasks finish, the run returns a table, and no key of it is
  shorter than three characters or a stop word.
\<close>

theorem filter_correctness:
  assumes "1 \<le> num_workers" and "completion_order order (nat num_workers)"
  shows "\<exists>table. mapreduce U num_workers order text = Inr table
           \<and> (\<forall>word \<in> fst ` set table. \<not> length word < 3 \<and> word \<notin> stop_words)"
proof -
  obtain chunks ps where ps: "mapreduce U num_workers order text = Inr (reduce_function ps)"
      "mset ps = mset (concat (map (map_function U) chunks))"
    using mapreduce_pairs [OF assms] by blast
  have "set ps = set (concat (map (map_function U) chunks))"
    using ps(2) by (rule mset_eq_setD)
  then have "\<forall>p \<in> set ps. 3 \<le> length (fst p) \<and> fst p \<notin> stop_words"
    by (auto dest: map_function_pair)
  moreover have "fst ` set (reduce_function ps) = fst ` set ps"
    by (simp add: reduce_function_from reduce_from_keys)
  ultimately have "\<forall>word \<in> fst ` set (reduce_function ps). \<not> length word < 3 \<and> word \<notin> stop_words"
    by auto
  with ps(1) show ?thesis by blast
qed

theorem filter_correctness_witness:
  "(1::int) \<le> 2 \<and> completion_order [1, 0] (nat 2)
   \<and> (\<exists>table. mapreduce excerpt 2 [1, 0] (lit ''The cat sat on the mat. The cat ran.'') = Inr table
       \<and> (\<forall>word \<in> fst ` set table. \<not> length word < 3 \<and> word \<notin> stop_words))"
proof -
  have h1: "(1::int) \<le> 2"
    by simp
  have h2: "completion_order [1, 0] (nat 2)"
    by (simp add: completion_order_def upt_rec)
  show ?thesis
    using h1 h2
      filter_correctness [OF h1 h2, of excerpt "lit ''The cat sat on the mat. The cat ran.''"]
    by blast
qed

text \<open>
  C6 (sum invariant).  For every list of (word, count) pairs the values of the table that
  \<^verbatim>\<open>reduce_function\<close> returns add up to the counts of the list; and for every run with
  \<open>num_workers \<ge> 1\<close> the values of the returned table add up to the number of (word, 1)
  pairs that the map stage emitted over all chunks.
\<close>

theorem sum_invariant:
  assumes "1 \<le> num_workers" and "completion_order order (nat num_workers)"
  shows "sum_list (map snd (reduce_function word_counts)) = sum_list (map snd word_counts)
         \<and> (\<exists>chunks table. split_text U (clean_text U text) num_workers = Inr chunks
               \<and> mapreduce U num_workers order text = Inr table
               \<and> sum_list (map snd table) = int (length (concat (map (map_function U) chunks))))"
proof -
  have total: "sum_list (map snd (reduce_function qs)) = sum_list (map snd qs)" for qs
    by (simp add: reduce_function_from reduce_from_sum)
  obtain chunks ps where ps: "split_text U (clean_text U text) num_workers = Inr chunks"
      "mapreduce U num_workers order text = Inr (reduce_function ps)"
      "mset ps = mset (concat (map (map_function U) chunks))"
    using mapreduce_pairs [OF assms] by blast
  have "set ps = set (concat (map (map_function U) chunks))"
    using ps(3) by (rule mset_eq_setD)
  then have "\<forall>p \<in> set ps. snd p = 1"
    by (auto dest: map_function_pair)
  then have "sum_list (map snd ps) = int (length ps)"
    by (rule sum_list_ones)
  moreover have "length ps = length (concat (map (map_function U) chunks))"
    using ps(3) by (rule mset_eq_length)
  ultimately have "sum_list (map snd (reduce_function ps)) =
      int (length (concat (map (map_function U) chunks)))"
    by (simp only: total)
  with ps(1,2) total show ?thesis by blast
qed

theorem sum_invariant_witness:
  "(1::int) \<le> 2 \<and> completion_order [1, 0] (nat 2)
   \<and> sum_list (map snd (reduce_function [(lit ''cat'', 2), (lit ''mat'', 1), (lit ''cat'', 3)]))
       = sum_list (map snd [(lit ''cat'', 2), (lit ''mat'', 1), (lit ''cat'', 3)])
   \<and> (\<exists>chunks table.
         split_text excerpt (clean_text excerpt (lit ''The cat sat on the mat. The cat ran.'')) 2
           = Inr chunks
       \<and> mapreduce excerpt 2 [1, 0] (lit ''The cat sat on the mat. The cat ran.'') = Inr table
       \<and> sum_list (map snd table) = int (length (concat (map (map_function excerpt) chunks))))"
proof -
  have h1: "(1::int) \<le> 2"
    by simp
  have h2: "completion_order [1, 0] (nat 2)"
    by (simp add: completion_order_def upt_rec)
  show ?thesis
    using h1 h2
      sum_invariant [OF h1 h2, of "[(lit ''cat'', 2), (lit ''mat'', 1), (lit ''cat'', 3)]"
        excerpt "lit ''The cat sat on the mat. The cat ran.''"]
    by blast
qed

text \<open>
  C7 (order independence).  For every list of (word, count) pairs and every permutation
  of it, \<^verbatim>\<open>reduce_function\<close> returns the same table: the same keys, and the same count
  for every key.  (Each key occurs once in either table, so the two dicts are equal in
  Python's sense.)
\<close>

theorem order_independence:
  assumes "mset shuffled = mset word_counts"
  shows "map_of (reduce_function shuffled) = map_of (reduce_function word_counts)
         \<and> fst ` set (reduce_function shuffled) = fst ` set (reduce_function word_counts)
         \<and> distinct (map fst (reduce_function shuffled))
         \<and> distinct (map fst (reduce_function word_counts))"
proof -
  have "set shuffled = set word_counts"
    using assms by (rule mset_eq_setD)
  then have "fst ` set (reduce_function shuffled) = fst ` set (reduce_function word_counts)"
    by (simp add: reduce_function_from reduce_from_keys)
  moreover have "distinct (map fst (reduce_function qs))" for qs
    by (simp add: reduce_function_from reduce_from_distinct)
  ultimately show ?thesis
    using reduce_function_mset [OF assms] by blast
qed

theorem order_independence_witness:
  "mset [(lit ''mat'', 1), (lit ''cat'', 3), (lit ''cat'', 2)]
     = mset [(lit ''cat'', 2), (lit ''mat'', 1::int), (lit ''cat'', 3)]
   \<and> map_of (reduce_function [(lit ''mat'', 1), (lit ''cat'', 3), (lit ''cat'', 2)])
     = map_of (reduce_function [(lit ''cat'', 2), (lit ''mat'', 1), (lit ''cat'', 3)])
   \<and> reduce_function [(lit ''mat'', 1), (lit ''cat'', 3), (lit ''cat'', 2)]
     = [(lit ''mat'', 1), (lit ''cat'', 5)]
   \<and> reduce_function [(lit ''cat'', 2), (lit ''mat'', 1), (lit ''cat'', 3)]
     = [(lit ''cat'', 5), (lit ''mat'', 1)]"
proof -
  have h: "mset [(lit ''mat'', 1), (lit ''cat'', 3), (lit ''cat'', 2)]
      = mset [(lit ''cat'', 2), (lit ''mat'', 1::int), (lit ''cat'', 3)]"
    by (simp add: lit_def)
  have "reduce_function [(lit ''mat'', 1), (lit ''cat'', 3), (lit ''cat'', 2)]
      = [(lit ''mat'', 1), (lit ''cat'', 5)]"
    by (simp add: reduce_function_def lit_def)
  moreover have "reduce_function [(lit ''cat'', 2), (lit ''mat'', 1), (lit ''cat'', 3)]
      = [(lit ''cat'', 5), (lit ''mat'', 1)]"
    by (simp add: reduce_function_def lit_def)
  ultimately show ?thesis
    using h order_independence [OF h] by blast
qed

text \<open>
  C9 (independence of the partitioning degree).  For every input text and all
  \<open>m, n \<ge> 1\<close>, whatever the orders in which the map tasks finish, the run with \<open>m\<close>
  workers and the run with \<open>n\<close> workers return equal tables, and each equals the table
  of the whole normalized text taken as a single chunk,
  \<^verbatim>\<open>reduce_function(map_function(clean_text(text)))\<close>.  Tables are compared as Python
  compares dicts: by their keys, each of which occurs once, and the values at the keys.
\<close>

theorem partition_independence:
  assumes "1 \<le> m" and "1 \<le> n" and "isspace U 32"
    and "completion_order order_m (nat m)" and "completion_order order_n (nat n)"
  shows "\<exists>table_m table_n.
           mapreduce U m order_m text = Inr table_m \<and> mapreduce U n order_n text = Inr table_n
           \<and> map_of table_m = map_of table_n
           \<and> map_of table_m = map_of (reduce_function (map_function U (clean_text U text)))
           \<and> distinct (map fst table_m) \<and> distinct (map fst table_n)
           \<and> distinct (map fst (reduce_function (map_function U (clean_text U text))))"
proof -
  have run: "\<exists>table. mapreduce U k order text = Inr table
      \<and> map_of table = map_of (reduce_function (map_function U (clean_text U text)))
      \<and> distinct (map fst table)"
    if k: "1 \<le> k" "completion_order order (nat k)" for k order
  proof -
    obtain chunks ps where ps: "split_text U (clean_text U text) k = Inr chunks"
        "mapreduce U k order text = Inr (reduce_function ps)"
        "mset ps = mset (concat (map (map_function U) chunks))"
      using mapreduce_pairs [OF k] by blast
    obtain chunks' where c: "split_text U (clean_text U text) k = Inr chunks'"
        "concat (map (split U) chunks') = split U (clean_text U text)"
      using split_text_cover [OF k(1) assms(3)] by blast
    have "chunks' = chunks"
      using ps(1) c(1) by simp
    then have "concat (map (map_function U) chunks) = map_function U (clean_text U text)"
      using c(2) by (simp add: map_function_concat) (simp add: map_function_def)
    then have "mset ps = mset (map_function U (clean_text U text))"
      using ps(3) by simp
    then have "map_of (reduce_function ps) =
        map_of (reduce_function (map_function U (clean_text U text)))"
      by (rule reduce_function_mset)
    moreover have "distinct (map fst (reduce_function ps))"
      by (simp add: reduce_function_from reduce_from_distinct)
    ultimately show ?thesis
      using ps(2) by blast
  qed
  obtain tm where tm: "mapreduce U m order_m text = Inr tm"
      "map_of tm = map_of (reduce_function (map_function U (clean_text U text)))"
      "distinct (map fst tm)"
    using run [OF assms(1,4)] by blast
  obtain tn where tn: "mapreduce U n order_n text = Inr tn"
      "map_of tn = map_of (reduce_function (map_function U (clean_text U text)))"
      "distinct (map fst tn)"
    using run [OF assms(2,5)] by blast
  have "distinct (map fst (reduce_function (map_function U (clean_text U text))))"
    by (simp add: reduce_function_from reduce_from_distinct)
  with tm tn show ?thesis
    by (intro exI [of _ tm] exI [of _ tn]) simp
qed

theorem partition_independence_witness:
  "(1::int) \<le> 2 \<and> (1::int) \<le> 3 \<and> isspace excerpt 32
   \<and> completion_order [1, 0] (nat 2) \<and> completion_order [2, 0, 1] (nat 3)
   \<and> (\<exists>table_m table_n.
         mapreduce excerpt 2 [1, 0] (lit ''The cat sat on the mat. The cat ran.'') = Inr table_m
       \<and> mapreduce excerpt 3 [2, 0, 1] (lit ''The cat sat on the mat. The cat ran.'') = Inr table_n
       \<and> map_of table_m = map_of table_n
       \<and> map_of table_m = map_of (reduce_function (map_function excerpt
            (clean_text excerpt (lit ''The cat sat on the mat. The cat ran.'')))))"
proof -
  have h1: "(1::int) \<le> 2" and h2: "(1::int) \<le> 3"
    by simp_all
  have h3: "isspace excerpt 32"
    by (simp add: excerpt_def ascii_isspace_def)
  have h4: "completion_order [1, 0] (nat 2)" and h5: "completion_order [2, 0, 1] (nat 3)"
    by (simp_all add: completion_order_def upt_rec)
  show ?thesis
    using h1 h2 h3 h4 h5
      partition_independence [OF h1 h2 h3 h4 h5, of "lit ''The cat sat on the mat. The cat ran.''"]
    by blast
qed

text \<open>
  C10 (positive counts).  For every input text and every \<open>num_workers \<ge> 1\<close>, whatever the
  order in which the map tasks finish, the run returns a table and every value in it is
  at least \<open>1\<close>: no key is present with a zero count.
\<close>

theorem counts_positive:
  assumes "1 \<le> num_workers" and "completion_order order (nat num_workers)"
  shows "\<exists>table. mapreduce U num_workers order text = Inr table
           \<and> (\<forall>item \<in> set table. 1 \<le> snd item)"
proof -
  obtain chunks ps where ps: "mapreduce U num_workers order text = Inr (reduce_function ps)"
      "mset ps = mset (concat (map (map_function U) chunks))"
    using mapreduce_pairs [OF assms] by blast
  have "set ps = set (concat (map (map_function U) chunks))"
    using ps(2) by (rule mset_eq_setD)
  then have "\<forall>p \<in> set ps. 1 \<le> snd p"
    by (auto dest: map_function_pair)
  then have "\<forall>item \<in> set (reduce_from [] ps). 1 \<le> snd item"
    by (rule reduce_from_positive) simp
  with ps(1) show ?thesis
    by (simp add: reduce_function_from)
qed

theorem counts_positive_witness:
  "(1::int) \<le> 2 \<and> completion_order [1, 0] (nat 2)
   \<and> (\<exists>table. mapreduce excerpt 2 [1, 0] (lit ''The cat sat on the mat. The cat ran.'') = Inr table
       \<and> (\<forall>item \<in> set table. 1 \<le> snd item))"
proof -
  have h1: "(1::int) \<le> 2"
    by simp
  have h2: "completion_order [1, 0] (nat 2)"
    by (simp add: completion_order_def upt_rec)
  show ?thesis
    using h1 h2
      counts_positive [OF h1 h2, of excerpt "lit ''The cat sat on the mat. The cat ran.''"]
    by blast
qed

section \<open>The claims on normalization and the scenario\<close>

text \<open>
  C4, at the input on which the code departs from it.  The claim is that the output of
  \<^verbatim>\<open>clean_text\<close> has only lowercase alphabetic tokens; the comment in \<^verbatim>\<open>clean_text\<close> says
  that punctuation and digits are removed.  The underscore is a word character of
  \<^verbatim>\<open>\w\<close>, so the pattern \<^verbatim>\<open>[^\w\s]\<close> leaves it in place: \<^verbatim>\<open>snake_case\<close> comes out as it
  went in, one token with a character that is not a letter.
\<close>

theorem clean_text_keeps_underscore:
  assumes "ascii_rows U"
  shows "clean_text U (lit ''snake_case'') = lit ''snake_case''"
  using clean_text_agree [OF assms ascii_rows_excerpt underscore_text_ascii]
  by (simp only: underscore_clean)

theorem clean_text_keeps_underscore_witness:
  "ascii_rows excerpt \<and> clean_text excerpt (lit ''snake_case'') = lit ''snake_case''"
  using ascii_rows_excerpt clean_text_keeps_underscore [OF ascii_rows_excerpt] by blast




text \<open>
  C8 (scenario).  For the input \<^verbatim>\<open>The cat sat on the mat. The cat ran.\<close> and one worker,
  normalization yields \<^verbatim>\<open>the cat sat on the mat the cat ran\<close>, which is that sequence of
  nine words; the words that pass the filter are \<^verbatim>\<open>cat sat mat cat ran\<close>; and the returned
  table is exactly \<open>{cat: 2, sat: 1, mat: 1, ran: 1}\<close>, with the keys inserted in this
  order.  With one worker there is one map task, so the only completion order is \<open>[0]\<close>.
\<close>

theorem scenario_cat:
  assumes "ascii_rows U" and "completion_order order (nat 1)"
  shows "clean_text U (lit ''The cat sat on the mat. The cat ran.'')
           = lit ''the cat sat on the mat the cat ran''
         \<and> split U (clean_text U (lit ''The cat sat on the mat. The cat ran.''))
           = map lit [''the'', ''cat'', ''sat'', ''on'', ''the'', ''mat'', ''the'', ''cat'', ''ran'']
         \<and> map fst (map_function U (clean_text U (lit ''The cat sat on the mat. The cat ran.'')))
           = map lit [''cat'', ''sat'', ''mat'', ''cat'', ''ran'']
         \<and> mapreduce U 1 order (lit ''The cat sat on the mat. The cat ran.'')
           = Inr [(lit ''cat'', 2), (lit ''sat'', 1), (lit ''mat'', 1), (lit ''ran'', 1)]"
proof -
  note E = ascii_rows_excerpt
  note t = scenario_text_ascii
  have order: "order = [0]"
    using assms(2) by (simp add: completion_order_def)
  have c: "clean_text U (lit ''The cat sat on the mat. The cat ran.'')
      = lit ''the cat sat on the mat the cat ran''"
    using clean_text_agree [OF assms(1) E t] by (simp only: scenario_clean)
  have a: "is_ascii (lit ''the cat sat on the mat the cat ran'')"
    using clean_text_ascii [OF assms(1) t] by (simp only: c)
  have w: "split U (lit ''the cat sat on the mat the cat ran'')
      = map lit [''the'', ''cat'', ''sat'', ''on'', ''the'', ''mat'', ''the'', ''cat'', ''ran'']"
    using split_agree [OF assms(1) E a] by (simp only: scenario_words)
  have p: "map fst (map_function U (lit ''the cat sat on the mat the cat ran''))
      = map lit [''cat'', ''sat'', ''mat'', ''cat'', ''ran'']"
    using map_function_agree [OF assms(1) E a] by (simp only: scenario_pairs)
  have r: "mapreduce U 1 [0] (lit ''The cat sat on the mat. The cat ran.'')
      = Inr [(lit ''cat'', 2), (lit ''sat'', 1), (lit ''mat'', 1), (lit ''ran'', 1)]"
    using mapreduce_agree [OF assms(1) E t] by (simp only: scenario_run)
  show ?thesis
    by (simp only: c w p r order simp_thms)
qed

theorem scenario_cat_witness:
  "ascii_rows excerpt \<and> completion_order [0] (nat 1)
   \<and> mapreduce excerpt 1 [0] (lit ''The cat sat on the mat. The cat ran.'')
       = Inr [(lit ''cat'', 2), (lit ''sat'', 1), (lit ''mat'', 1), (lit ''ran'', 1)]"
proof -
  have h1: "ascii_rows excerpt"
    by (rule ascii_rows_excerpt)
  have h2: "completion_order [0] (nat 1)"
    by (simp add: completion_order_def)
  show ?thesis
    using h1 h2 scenario_cat [OF h1 h2] by blast
qed

end
